theory Spec2Isabelle
  imports
    Main
    "HOL-Library.Sublist"
    "HOL-Library.Char_ord"
    "HOL-Library.List_Lexorder"
begin

section \<open>Font Awesome icon extraction: a model of \<^verbatim>\<open>smth.py\<close>\<close>

text \<open>
  The script reads a CSS bundle, finds icon selectors with two regular expressions,
  normalises the captured class names into a base, a brand and a non-brand list, and
  writes them to files. Strings are \<^typ>\<open>string\<close>, ordered as Python orders
  \<^verbatim>\<open>str\<close>: lexicographically, character by character, by code point.
\<close>

subsection \<open>Regular expressions as the script uses them\<close>

text \<open>
  Both patterns are sequences of character classes, each taken once, optionally
  (\<^verbatim>\<open>?\<close>) or one or more times (\<^verbatim>\<open>+\<close>), around one capture group. A class
  is a list of inclusive ranges; \<^verbatim>\<open>[a-z0-9-]\<close> is three of them. \<open>Star\<close> is the
  tail of a \<^verbatim>\<open>+\<close> after its first character.
\<close>

type_synonym cls = "(char \<times> char) list"

datatype item = One cls | Opt cls | Plus cls | Star cls | GOpen | GClose

definition in_cls :: "cls \<Rightarrow> char \<Rightarrow> bool" where
  "in_cls k x = list_ex (\<lambda>(lo, hi). lo \<le> x \<and> x \<le> hi) k"

definition grab :: "bool \<Rightarrow> string \<Rightarrow> char \<Rightarrow> string" where
  "grab g cap x = (if g then cap @ [x] else cap)"

text \<open>
  The matcher of \<^verbatim>\<open>re\<close>: greedy, backtracking, first success wins. \<open>run its s g cap\<close>
  matches the items \<open>its\<close> at the front of \<open>s\<close>; \<open>g\<close> says whether the capture group is
  open and \<open>cap\<close> is what it has captured. The result is the captured text and the input
  left after the match, or \<open>None\<close> when no way of matching succeeds.
\<close>

fun run :: "item list \<Rightarrow> string \<Rightarrow> bool \<Rightarrow> string \<Rightarrow> (string \<times> string) option" where
  "run [] s g cap = Some (cap, s)"
| "run (GOpen # its) s g cap = run its s True []"
| "run (GClose # its) s g cap = run its s False cap"
| "run (One k # its) [] g cap = None"
| "run (One k # its) (x # xs) g cap =
     (if in_cls k x then run its xs g (grab g cap x) else None)"
| "run (Opt k # its) [] g cap = run its [] g cap"
| "run (Opt k # its) (x # xs) g cap =
     (if in_cls k x
      then (case run its xs g (grab g cap x) of
              Some r \<Rightarrow> Some r
            | None \<Rightarrow> run its (x # xs) g cap)
      else run its (x # xs) g cap)"
| "run (Plus k # its) [] g cap = None"
| "run (Plus k # its) (x # xs) g cap =
     (if in_cls k x then run (Star k # its) xs g (grab g cap x) else None)"
| "run (Star k # its) [] g cap = run its [] g cap"
| "run (Star k # its) (x # xs) g cap =
     (if in_cls k x
      then (case run (Star k # its) xs g (grab g cap x) of
              Some r \<Rightarrow> Some r
            | None \<Rightarrow> run its (x # xs) g cap)
      else run its (x # xs) g cap)"

text \<open>
  \<^verbatim>\<open>pattern.findall(text)\<close> for a pattern with one group: scan from the left, at each
  position try to match, collect the group of each match and go on after the match
  (one character further when the match was empty).
\<close>

function findall :: "item list \<Rightarrow> string \<Rightarrow> string list" where
  "findall r [] = (case run r [] False [] of Some (c, rest) \<Rightarrow> [c] | None \<Rightarrow> [])"
| "findall r (x # xs) =
     (case run r (x # xs) False [] of
        Some (c, rest) \<Rightarrow> c # findall r (if length rest \<le> length xs then rest else xs)
      | None \<Rightarrow> findall r xs)"
  by pat_completeness auto
termination
  by (relation "measure (\<lambda>(r, s). length s)") auto

definition lit :: "string \<Rightarrow> item list" where
  "lit s = map (\<lambda>c. One [(c, c)]) s"

definition slug_cls :: cls where
  "slug_cls = [(CHR ''a'', CHR ''z''), (CHR ''0'', CHR ''9''), (CHR ''-'', CHR ''-'')]"

definition lower_cls :: cls where
  "lower_cls = [(CHR ''a'', CHR ''z'')]"

definition brsl_cls :: cls where
  "brsl_cls = [(CHR ''b'', CHR ''b''), (CHR ''r'', CHR ''r''),
               (CHR ''s'', CHR ''s''), (CHR ''l'', CHR ''l'')]"

definition colon_cls :: cls where
  "colon_cls = [(CHR '':'', CHR '':'')]"

definition hyphen_cls :: cls where
  "hyphen_cls = [(CHR ''-'', CHR ''-'')]"

text \<open>\<^verbatim>\<open>ICON_SELECTOR_RE = re.compile(r"\.(fa-[a-z0-9-]+)::?before")\<close>\<close>

definition ICON_SELECTOR_RE :: "item list" where
  "ICON_SELECTOR_RE =
     lit ''.'' @ [GOpen] @ lit ''fa-'' @ [Plus slug_cls, GClose]
     @ lit '':'' @ [Opt colon_cls] @ lit ''before''"

text \<open>\<^verbatim>\<open>STYLE_SELECTOR_RE = re.compile(r"\.(fa[brsl]?[a-z]?-[a-z0-9-]+)::?before")\<close>\<close>

definition STYLE_SELECTOR_RE :: "item list" where
  "STYLE_SELECTOR_RE =
     lit ''.'' @ [GOpen] @ lit ''fa'' @ [Opt brsl_cls, Opt lower_cls, One hyphen_cls,
       Plus slug_cls, GClose]
     @ lit '':'' @ [Opt colon_cls] @ lit ''before''"

definition extract_icon_classes :: "string \<Rightarrow> string set" where
  "extract_icon_classes css_text =
     (let matches_primary = findall ICON_SELECTOR_RE css_text;
          matches_style = findall STYLE_SELECTOR_RE css_text
      in set matches_primary \<union> set matches_style)"

subsection \<open>String operations of Python that the normalizer uses\<close>

datatype error = FileNotFoundError | IsADirectoryError | PermissionError | IndexError

text \<open>\<^verbatim>\<open>s.startswith(p)\<close>\<close>

definition startswith :: "string \<Rightarrow> string \<Rightarrow> bool" where
  "startswith s p = prefix p s"

text \<open>
  \<^verbatim>\<open>s.replace(old, new)\<close>: every occurrence of \<open>old\<close>, found from the left and not
  overlapping, is replaced. With an empty \<open>old\<close> Python puts \<open>new\<close> around every
  character.
\<close>

function replace :: "string \<Rightarrow> string \<Rightarrow> string \<Rightarrow> string" where
  "replace old new [] = (if old = [] then new else [])"
| "replace old new (x # xs) =
     (if old = [] then new @ x # replace old new xs
      else if prefix old (x # xs) then new @ replace old new (drop (length old) (x # xs))
      else x # replace old new xs)"
  by pat_completeness auto
termination
  by (relation "measure (\<lambda>(old, new, s). length s)") (auto simp: neq_Nil_conv)

text \<open>
  \<^verbatim>\<open>s.split(sep, 1)\<close> for a separator of one character (the script passes \<^verbatim>\<open>"-"\<close>):
  the text before the first separator and the text after it, or the whole string alone
  when there is no separator.
\<close>

fun split_first :: "char \<Rightarrow> string \<Rightarrow> string list" where
  "split_first sep [] = [[]]"
| "split_first sep (x # xs) =
     (if x = sep then [[], xs]
      else (case split_first sep xs of
              [] \<Rightarrow> [[x]]
            | a # rest \<Rightarrow> (x # a) # rest))"

text \<open>\<^verbatim>\<open>xs[i]\<close> for an index that is not negative: out of range raises.\<close>

definition index :: "'a list \<Rightarrow> nat \<Rightarrow> error + 'a" where
  "index xs i = (if i < length xs then Inr (xs ! i) else Inl IndexError)"

subsection \<open>The normalizer\<close>

text \<open>
  The body of the loop \<^verbatim>\<open>for cls in raw\<close> of \<^verbatim>\<open>normalize_icons\<close>, on the pair of
  the two sets the loop fills, \<open>base_icons\<close> and \<open>brand_icons\<close>.
\<close>

type_synonym icon_sets = "string set \<times> string set"

definition normalize_step :: "string \<Rightarrow> icon_sets \<Rightarrow> error + icon_sets" where
  "normalize_step cls st =
     (case st of (base_icons, brand_icons) \<Rightarrow>
        if startswith cls ''fa-'' then Inr (insert cls base_icons, brand_icons)
        else if startswith cls ''fab-'' then
          (let brand_name = replace ''fab-'' ''fa-'' cls
           in Inr (base_icons, insert brand_name brand_icons))
        else if startswith cls ''fas-'' \<or> startswith cls ''far-'' \<or> startswith cls ''fal-'' then
          (case index (split_first (CHR ''-'') cls) 1 of
             Inl e \<Rightarrow> Inl e
           | Inr solid_name \<Rightarrow>
               (let solid_full = ''fa-'' @ solid_name
                in Inr (insert solid_full base_icons, brand_icons)))
        else Inr (base_icons, brand_icons))"

fun normalize_loop :: "string list \<Rightarrow> icon_sets \<Rightarrow> error + icon_sets" where
  "normalize_loop [] st = Inr st"
| "normalize_loop (cls # rest) st =
     (case normalize_step cls st of
        Inl e \<Rightarrow> Inl e
      | Inr st' \<Rightarrow> normalize_loop rest st')"

text \<open>
  \<^verbatim>\<open>normalize_icons(raw)\<close>. The argument is the raw set as the list of its elements in
  the order the loop visits them; \<^verbatim>\<open>sorted\<close> of a set is \<^const>\<open>sorted_list_of_set\<close>.
  The result is the triple the function returns: all icons, brand icons, the others.
\<close>

definition normalize_icons :: "string list \<Rightarrow> error + (string list \<times> string list \<times> string list)" where
  "normalize_icons raw =
     (case normalize_loop raw ({}, {}) of
        Inl e \<Rightarrow> Inl e
      | Inr (base_icons, brand_icons) \<Rightarrow>
          (let full_base = base_icons \<union> brand_icons
           in Inr (sorted_list_of_set full_base,
                   sorted_list_of_set brand_icons,
                   sorted_list_of_set (full_base - brand_icons))))"

text \<open>
  Python visits a set in an order of its own. The result of the normalizer depends on
  the elements only (lemma \<open>normalize_icons_cong\<close> below), so the model visits them
  in ascending order.
\<close>

definition iter_set :: "string set \<Rightarrow> string list" where
  "iter_set A = sorted_list_of_set A"

text \<open>Lines 135 and 136 of \<^verbatim>\<open>main\<close>: extraction, then normalization.\<close>

definition extract_and_normalize ::
  "string \<Rightarrow> error + (string list \<times> string list \<times> string list)" where
  "extract_and_normalize css_text =
     (let raw_classes = extract_icon_classes css_text
      in normalize_icons (iter_set raw_classes))"

subsection \<open>The writers\<close>

text \<open>
  The regular files are a map from paths to contents. Each writer is given here by what
  it does to the files once its path is open for writing; \<^verbatim>\<open>write_text\<close> creates or
  overwrites one file. Whether the path can be opened is decided where \<^verbatim>\<open>main\<close>
  calls the writer (\<open>try_write\<close> below).
\<close>

type_synonym path = string
type_synonym fs = "path \<rightharpoonup> string"

definition write_text :: "path \<Rightarrow> string \<Rightarrow> fs \<Rightarrow> fs" where
  "write_text p content files = files(p \<mapsto> content)"

definition nl :: string where
  "nl = [CHR 0x0A]"

text \<open>\<^verbatim>\<open>sep.join(items)\<close>\<close>

fun join :: "string \<Rightarrow> string list \<Rightarrow> string" where
  "join sep [] = []"
| "join sep [x] = x"
| "join sep (x # y # ys) = x @ sep @ join sep (y # ys)"

definition write_list :: "path \<Rightarrow> string list \<Rightarrow> fs \<Rightarrow> fs" where
  "write_list p items files = write_text p (join nl items @ nl) files"





text \<open>
  The dictionary that \<^verbatim>\<open>write_json\<close> builds, keys in the order of insertion.
  \<^verbatim>\<open>json.dumps\<close> is the library's; the writer takes it as the parameter \<open>dumps\<close>.
\<close>

datatype json = JInt int | JStr string | JArr "json list" | JObj "(string \<times> json) list"

definition json_data :: "string list \<Rightarrow> string list \<Rightarrow> string list \<Rightarrow> json" where
  "json_data all_icons brands solids =
     JObj [(''count_total'', JInt (int (length all_icons))),
           (''count_brands'', JInt (int (length brands))),
           (''count_non_brands'', JInt (int (length solids))),
           (''icons'', JArr (map JStr all_icons)),
           (''brands'', JArr (map JStr brands)),
           (''non_brands'', JArr (map JStr solids))]"

definition write_json ::
  "(json \<Rightarrow> string) \<Rightarrow> path \<Rightarrow> string list \<Rightarrow> string list \<Rightarrow> string list \<Rightarrow> fs \<Rightarrow> fs" where
  "write_json dumps p all_icons brands solids files =
     (let data = json_data all_icons brands solids
      in write_text p (dumps data) files)"


subsection \<open>The run\<close>










subsection \<open>Auxiliary notions for the proofs\<close>

text \<open>What one raw token adds to \<open>base_icons\<close> and to \<open>brand_icons\<close>.\<close>

definition base_of :: "string \<Rightarrow> string set" where
  "base_of cls =
     (if startswith cls ''fa-'' then {cls}
      else if startswith cls ''fab-'' then {}
      else if startswith cls ''fas-'' \<or> startswith cls ''far-'' \<or> startswith cls ''fal-''
      then {''fa-'' @ drop 4 cls}
      else {})"

definition brand_of :: "string \<Rightarrow> string set" where
  "brand_of cls =
     (if startswith cls ''fa-'' then {}
      else if startswith cls ''fab-'' then {replace ''fab-'' ''fa-'' cls}
      else {})"




text \<open>
  Shapes of captured tokens: the letters that \<^verbatim>\<open>[brsl]?[a-z]?\<close> can match, the text
  of a token between \<^verbatim>\<open>fa\<close> and its first hyphen, and the items both patterns end
  with.
\<close>

definition style_infix :: "string \<Rightarrow> bool" where
  "style_infix l =
     (case l of
        [] \<Rightarrow> True
      | [c] \<Rightarrow> in_cls lower_cls c
      | [b, c] \<Rightarrow> in_cls brsl_cls b \<and> in_cls lower_cls c
      | _ \<Rightarrow> False)"

definition style_letters :: "string \<Rightarrow> string" where
  "style_letters t = takeWhile (\<lambda>c. c \<noteq> CHR ''-'') (drop 2 t)"

definition tail_items :: "item list" where
  "tail_items = GClose # lit '':'' @ [Opt colon_cls] @ lit ''before''"

section \<open>Properties\<close>

subsection \<open>The normalizer and the plain-text writer\<close>

lemma solid_name_index:
  assumes "startswith cls ''fas-'' \<or> startswith cls ''far-'' \<or> startswith cls ''fal-''"
  shows "index (split_first (CHR ''-'') cls) (Suc 0) = Inr (drop 4 cls)"
proof -
  from assms obtain c r where "cls = CHR ''f'' # CHR ''a'' # c # CHR ''-'' # r" "c \<noteq> CHR ''-''"
    by (auto simp: startswith_def prefix_def)
  then show ?thesis
    by (simp add: index_def split: list.splits)
qed

lemma normalize_step_eq:
  "normalize_step cls (B, R) = Inr (B \<union> base_of cls, R \<union> brand_of cls)"
  by (simp add: normalize_step_def base_of_def brand_of_def solid_name_index Let_def)

lemma normalize_loop_eq:
  "normalize_loop raw (B, R) =
     Inr (B \<union> (\<Union>c\<in>set raw. base_of c), R \<union> (\<Union>c\<in>set raw. brand_of c))"
proof (induction raw arbitrary: B R)
  case Nil
  show ?case by simp
next
  case (Cons c raw)
  show ?case
    by (simp add: normalize_step_eq Cons.IH Un_assoc)
qed

lemma finite_base_of: "finite (\<Union>c\<in>set raw. base_of c)"
  by (simp add: base_of_def)

lemma finite_brand_of: "finite (\<Union>c\<in>set raw. brand_of c)"
  by (simp add: brand_of_def)

lemma normalize_icons_eq:
  "normalize_icons raw =
     Inr (sorted_list_of_set ((\<Union>c\<in>set raw. base_of c) \<union> (\<Union>c\<in>set raw. brand_of c)),
          sorted_list_of_set (\<Union>c\<in>set raw. brand_of c),
          sorted_list_of_set (((\<Union>c\<in>set raw. base_of c) \<union> (\<Union>c\<in>set raw. brand_of c))
                              - (\<Union>c\<in>set raw. brand_of c)))"
  by (simp add: normalize_icons_def normalize_loop_eq Let_def)

lemma normalize_icons_cong: "set xs = set ys \<Longrightarrow> normalize_icons xs = normalize_icons ys"
  by (simp add: normalize_icons_eq)

lemma replace_fab_prefix:
  "startswith cls ''fab-'' \<Longrightarrow> startswith (replace ''fab-'' ''fa-'' cls) ''fa-''"
  by (auto simp: startswith_def prefix_def)

lemma base_of_fa: "x \<in> base_of c \<Longrightarrow> startswith x ''fa-''"
  by (auto simp: base_of_def startswith_def split: if_splits)

lemma brand_of_fa: "x \<in> brand_of c \<Longrightarrow> startswith x ''fa-''"
  by (auto simp: brand_of_def replace_fab_prefix split: if_splits)

text \<open>
  Claim C3. For every raw set, in whatever order the loop visits it, the normalizer
  returns three lists such that the brand list is a subset of the base list, the
  non-brand list is the base list without the brand list, and each list is strictly
  ascending in the lexicographic order, hence without duplicates.
\<close>

theorem C3_normalize_invariant:
  "\<exists>base brand non_brand.
     normalize_icons raw = Inr (base, brand, non_brand) \<and>
     set brand \<subseteq> set base \<and>
     set non_brand = set base - set brand \<and>
     sorted_wrt (<) base \<and> sorted_wrt (<) brand \<and> sorted_wrt (<) non_brand \<and>
     distinct base \<and> distinct brand \<and> distinct non_brand"
  by (auto simp: normalize_icons_eq finite_base_of finite_brand_of)

text \<open>
  Claim C10. For every raw set, every string of the base, brand and non-brand lists
  that the normalizer returns starts with \<^verbatim>\<open>fa-\<close>.
\<close>

theorem C10_all_start_with_fa:
  "\<exists>base brand non_brand.
     normalize_icons raw = Inr (base, brand, non_brand) \<and>
     (\<forall>x \<in> set base \<union> set brand \<union> set non_brand. startswith x ''fa-'')"
  by (auto simp: normalize_icons_eq finite_base_of finite_brand_of
           dest: base_of_fa brand_of_fa)

text \<open>
  Claim C10 at a raw set with one token of each kind.
\<close>

theorem C10_all_start_with_fa_witness:
  "\<exists>base brand non_brand.
     normalize_icons [''fab-github'', ''fas-user'', ''fa-code'', ''fad-x''] = Inr (base, brand, non_brand) \<and>
     (\<forall>x \<in> set base \<union> set brand \<union> set non_brand. startswith x ''fa-'')"
  using C10_all_start_with_fa [of "[''fab-github'', ''fas-user'', ''fa-code'', ''fad-x'']"] by simp

text \<open>
  Claim C1 says that a token starting with \<^verbatim>\<open>fab-\<close> contributes \<^verbatim>\<open>fa-\<close> followed
  by the token without its first four characters. The code calls \<^verbatim>\<open>replace\<close>, which
  rewrites every occurrence of \<^verbatim>\<open>fab-\<close>, not the leading one only: the selector
  \<^verbatim>\<open>.fab-prefab-x:before\<close> is captured as \<^verbatim>\<open>fab-prefab-x\<close>, for which the claim gives
  \<^verbatim>\<open>fa-prefab-x\<close> and the normalizer gives \<^verbatim>\<open>fa-prefa-x\<close>.
\<close>

theorem C1_fab_replaces_every_occurrence:
  "extract_icon_classes ''.fab-prefab-x:before{}'' = {''fab-prefab-x''} \<and>
   startswith ''fab-prefab-x'' ''fab-'' \<and>
   \<not> startswith ''fab-prefab-x'' ''fa-'' \<and>
   ''fa-'' @ drop 4 ''fab-prefab-x'' = ''fa-prefab-x'' \<and>
   normalize_icons [''fab-prefab-x''] = Inr ([''fa-prefa-x''], [''fa-prefa-x''], []) \<and>
   extract_and_normalize ''.fab-prefab-x:before{}'' = Inr ([''fa-prefa-x''], [''fa-prefa-x''], [])"
  by code_simp

text \<open>
  Claim C8. A token that starts with none of \<^verbatim>\<open>fa-\<close>, \<^verbatim>\<open>fab-\<close>, \<^verbatim>\<open>fas-\<close>,
  \<^verbatim>\<open>far-\<close>, \<^verbatim>\<open>fal-\<close> is dropped: the loop body leaves both sets as they are and
  raises nothing, and the normalizer returns the same three lists with the token in the
  raw set as without it.
\<close>

theorem C8_unrecognized_dropped:
  assumes "\<not> startswith cls ''fa-''" and "\<not> startswith cls ''fab-''"
    and "\<not> startswith cls ''fas-''" and "\<not> startswith cls ''far-''"
    and "\<not> startswith cls ''fal-''"
  shows "normalize_step cls st = Inr st \<and>
         normalize_icons (xs @ cls # ys) = normalize_icons (xs @ ys) \<and>
         (\<exists>base brand non_brand. normalize_icons (xs @ cls # ys) = Inr (base, brand, non_brand))"
proof -
  have b: "base_of cls = {}" and r: "brand_of cls = {}"
    using assms by (simp_all add: base_of_def brand_of_def)
  have "normalize_step cls st = Inr st"
    by (cases st) (simp add: normalize_step_eq b r)
  moreover have "normalize_icons (xs @ cls # ys) = normalize_icons (xs @ ys)"
    by (simp add: normalize_icons_eq b r)
  moreover have "\<exists>base brand non_brand. normalize_icons (xs @ cls # ys) = Inr (base, brand, non_brand)"
    by (simp add: normalize_icons_eq)
  ultimately show ?thesis by blast
qed

text \<open>
  Claim C8 at the token \<^verbatim>\<open>fad-x\<close> between two recognized tokens.
\<close>

theorem C8_unrecognized_dropped_witness:
  "\<not> startswith ''fad-x'' ''fa-'' \<and> \<not> startswith ''fad-x'' ''fab-'' \<and>
   \<not> startswith ''fad-x'' ''fas-'' \<and> \<not> startswith ''fad-x'' ''far-'' \<and>
   \<not> startswith ''fad-x'' ''fal-'' \<and>
   normalize_step ''fad-x'' ({''fa-a''}, {}) = Inr ({''fa-a''}, {}) \<and>
   normalize_icons ([''fa-a''] @ ''fad-x'' # [''fab-b'']) = normalize_icons ([''fa-a''] @ [''fab-b'']) \<and>
   (\<exists>base brand non_brand.
      normalize_icons ([''fa-a''] @ ''fad-x'' # [''fab-b'']) = Inr (base, brand, non_brand))"
proof -
  have h: "\<not> startswith ''fad-x'' ''fa-''" "\<not> startswith ''fad-x'' ''fab-''"
    "\<not> startswith ''fad-x'' ''fas-''" "\<not> startswith ''fad-x'' ''far-''"
    "\<not> startswith ''fad-x'' ''fal-''"
    by (simp_all add: startswith_def)
  show ?thesis
    using h C8_unrecognized_dropped [OF h, of "({''fa-a''}, {})" "[''fa-a'']" "[''fab-b'']"]
    by blast
qed

lemma join_nl_nonempty:
  "items \<noteq> [] \<Longrightarrow> join sep items @ sep = concat (map (\<lambda>x. x @ sep) items)"
  by (induction sep items rule: join.induct) simp_all

text \<open>
  Claim C9, amended. For a list that is not empty the plain-text writer leaves in the
  file each name followed by one newline, in the order of the list. For the empty list
  it leaves one newline, not an empty file.
\<close>

theorem C9_write_list_content:
  "write_list p items files p =
     Some (if items = [] then nl else concat (map (\<lambda>name. name @ nl) items))"
  by (simp add: write_list_def write_text_def join_nl_nonempty)

text \<open>
  Claim C9 as stated fails for the empty list: the file holds one newline, and the
  concatenation over the empty list is the empty string.
\<close>

theorem C9_empty_list_counterexample:
  "write_list ''brands_list.txt'' [] Map.empty ''brands_list.txt'' = Some [CHR 0x0A] \<and>
   write_list ''brands_list.txt'' [] Map.empty ''brands_list.txt''
     \<noteq> Some (concat (map (\<lambda>name. name @ nl) []))"
  by (simp add: write_list_def write_text_def nl_def)

subsection \<open>What a match of the patterns looks like\<close>

lemma in_cls_single [simp]: "in_cls [(c, c)] x \<longleftrightarrow> x = c"
  by (auto simp: in_cls_def)

lemma run_One_Some:
  "run (One k # its) s g cap = Some r \<longleftrightarrow>
     (\<exists>x xs. s = x # xs \<and> in_cls k x \<and> run its xs g (grab g cap x) = Some r)"
  by (cases s) auto

lemma run_Opt_Some:
  assumes "run (Opt k # its) s g cap = Some r"
  shows "\<exists>l zs. s = l @ zs \<and> (l = [] \<or> (\<exists>x. l = [x] \<and> in_cls k x)) \<and>
           run its zs g (if g then cap @ l else cap) = Some r"
proof (cases "run its s g cap = Some r")
  case True
  then have "s = [] @ s \<and> ([] = [] \<or> (\<exists>x. [] = [x] \<and> in_cls k x)) \<and>
      run its s g (if g then cap @ [] else cap) = Some r"
    by (cases g) simp_all
  then show ?thesis by (intro exI) assumption
next
  case False
  with assms obtain x xs where "s = x # xs" "in_cls k x" "run its xs g (grab g cap x) = Some r"
    by (cases s) (auto split: if_splits option.splits)
  then have "s = [x] @ xs \<and> ([x] = [] \<or> (\<exists>y. [x] = [y] \<and> in_cls k y)) \<and>
      run its xs g (if g then cap @ [x] else cap) = Some r"
    by (simp add: grab_def split: if_splits)
  then show ?thesis by (intro exI) assumption
qed

lemma run_Star_Some:
  "run (Star k # its) s g cap = Some r \<Longrightarrow>
     \<exists>ys zs. s = ys @ zs \<and> list_all (in_cls k) ys \<and>
       run its zs g (if g then cap @ ys else cap) = Some r"
proof (induction s arbitrary: cap)
  case Nil
  then have "[] = [] @ [] \<and> list_all (in_cls k) [] \<and>
       run its [] g (if g then cap @ [] else cap) = Some r"
    by (cases g) simp_all
  then show ?case by (intro exI) assumption
next
  case (Cons x xs)
  show ?case
  proof (cases "in_cls k x \<and> run (Star k # its) xs g (grab g cap x) = Some r")
    case True
    then obtain ys zs where "xs = ys @ zs" "list_all (in_cls k) ys"
      "run its zs g (if g then grab g cap x @ ys else grab g cap x) = Some r"
      using Cons.IH by blast
    with True have "x # xs = (x # ys) @ zs \<and> list_all (in_cls k) (x # ys) \<and>
       run its zs g (if g then cap @ (x # ys) else cap) = Some r"
      by (simp add: grab_def split: if_splits)
    then show ?thesis by (intro exI) assumption
  next
    case False
    with Cons.prems have "run its (x # xs) g cap = Some r"
      by (auto split: if_splits option.splits)
    then have "x # xs = [] @ (x # xs) \<and> list_all (in_cls k) [] \<and>
       run its (x # xs) g (if g then cap @ [] else cap) = Some r"
      by (cases g) simp_all
    then show ?thesis by (intro exI) assumption
  qed
qed

lemma run_Plus_Some:
  assumes "run (Plus k # its) s g cap = Some r"
  shows "\<exists>ys zs. s = ys @ zs \<and> ys \<noteq> [] \<and> list_all (in_cls k) ys \<and>
       run its zs g (if g then cap @ ys else cap) = Some r"
proof -
  from assms obtain x xs where s: "s = x # xs" and x: "in_cls k x"
    and st: "run (Star k # its) xs g (grab g cap x) = Some r"
    by (cases s) (auto split: if_splits)
  from run_Star_Some [OF st] obtain ys zs where "xs = ys @ zs" "list_all (in_cls k) ys"
    "run its zs g (if g then grab g cap x @ ys else grab g cap x) = Some r"
    by blast
  with s x have "s = (x # ys) @ zs \<and> x # ys \<noteq> [] \<and> list_all (in_cls k) (x # ys) \<and>
       run its zs g (if g then cap @ (x # ys) else cap) = Some r"
    by (simp add: grab_def split: if_splits)
  then show ?thesis by (intro exI) assumption
qed

lemma run_tail_Some:
  assumes "run tail_items s g cap = Some (t, rest)"
  shows "t = cap \<and> (s = '':before'' @ rest \<or> s = ''::before'' @ rest)"
  using assms
  by (auto simp: tail_items_def lit_def colon_cls_def run_One_Some grab_def
      dest!: run_Opt_Some)

lemma run_slug_Some:
  assumes "run (Plus slug_cls # tail_items) s True cap = Some (t, rest)"
  shows "\<exists>slug m. s = slug @ m @ rest \<and> slug \<noteq> [] \<and> list_all (in_cls slug_cls) slug \<and>
           t = cap @ slug \<and> (m = '':before'' \<or> m = ''::before'')"
proof -
  from run_Plus_Some [OF assms] obtain ys zs where s: "s = ys @ zs" "ys \<noteq> []"
    "list_all (in_cls slug_cls) ys" and r: "run tail_items zs True (cap @ ys) = Some (t, rest)"
    by auto
  from run_tail_Some [OF r] s show ?thesis
    by auto
qed

lemma STYLE_items:
  "STYLE_SELECTOR_RE =
     One [(CHR ''.'', CHR ''.'')] # GOpen # One [(CHR ''f'', CHR ''f'')] # One [(CHR ''a'', CHR ''a'')]
     # Opt brsl_cls # Opt lower_cls # One hyphen_cls # Plus slug_cls # tail_items"
  by (simp add: STYLE_SELECTOR_RE_def tail_items_def lit_def)

lemma ICON_items:
  "ICON_SELECTOR_RE =
     One [(CHR ''.'', CHR ''.'')] # GOpen # One [(CHR ''f'', CHR ''f'')] # One [(CHR ''a'', CHR ''a'')]
     # One [(CHR ''-'', CHR ''-'')] # Plus slug_cls # tail_items"
  by (simp add: ICON_SELECTOR_RE_def tail_items_def lit_def)

lemma style_run_sound:
  assumes "run STYLE_SELECTOR_RE u False [] = Some (t, rest)"
  shows "\<exists>l slug m. u = ''.'' @ t @ m @ rest \<and> t = ''fa'' @ l @ ''-'' @ slug \<and>
           style_infix l \<and> slug \<noteq> [] \<and> list_all (in_cls slug_cls) slug \<and>
           (m = '':before'' \<or> m = ''::before'')"
proof -
  from assms obtain u1 where u: "u = ''.fa'' @ u1"
    and r1: "run (Opt brsl_cls # Opt lower_cls # One hyphen_cls # Plus slug_cls # tail_items)
               u1 True ''fa'' = Some (t, rest)"
    by (auto simp: STYLE_items run_One_Some grab_def)
  from run_Opt_Some [OF r1] obtain l1 u2 where u1: "u1 = l1 @ u2"
    and l1: "l1 = [] \<or> (\<exists>b. l1 = [b] \<and> in_cls brsl_cls b)"
    and r2: "run (Opt lower_cls # One hyphen_cls # Plus slug_cls # tail_items)
               u2 True (''fa'' @ l1) = Some (t, rest)"
    by auto
  from run_Opt_Some [OF r2] obtain l2 u3 where u2: "u2 = l2 @ u3"
    and l2: "l2 = [] \<or> (\<exists>c. l2 = [c] \<and> in_cls lower_cls c)"
    and r3: "run (One hyphen_cls # Plus slug_cls # tail_items)
               u3 True (''fa'' @ l1 @ l2) = Some (t, rest)"
    by auto
  from r3 obtain u4 where u3: "u3 = ''-'' @ u4"
    and r4: "run (Plus slug_cls # tail_items) u4 True (''fa'' @ l1 @ l2 @ ''-'') = Some (t, rest)"
    by (auto simp: run_One_Some grab_def hyphen_cls_def)
  from run_slug_Some [OF r4] obtain slug m where u4: "u4 = slug @ m @ rest" "slug \<noteq> []"
    "list_all (in_cls slug_cls) slug" "t = (''fa'' @ l1 @ l2 @ ''-'') @ slug"
    "m = '':before'' \<or> m = ''::before''"
    by blast
  have "style_infix (l1 @ l2)"
    using l1 l2 by (auto simp: style_infix_def brsl_cls_def lower_cls_def in_cls_def)
  with u u1 u2 u3 u4 have "u = ''.'' @ t @ m @ rest \<and> t = ''fa'' @ (l1 @ l2) @ ''-'' @ slug \<and>
           style_infix (l1 @ l2) \<and> slug \<noteq> [] \<and> list_all (in_cls slug_cls) slug \<and>
           (m = '':before'' \<or> m = ''::before'')"
    by simp
  then show ?thesis by (intro exI) assumption
qed

lemma run_rest_length: "run its s g cap = Some (c, rest) \<Longrightarrow> length rest \<le> length s"
  by (induction its s g cap rule: run.induct)
     (fastforce split: if_splits option.splits)+

lemma run_rest_suffix: "run its s g cap = Some (c, rest) \<Longrightarrow> suffix rest s"
  by (induction its s g cap rule: run.induct)
     (auto simp: suffix_Cons split: if_splits option.splits)

lemma findall_mem:
  "t \<in> set (findall r s) \<Longrightarrow> \<exists>pre u rest. s = pre @ u \<and> run r u False [] = Some (t, rest)"
proof (induction r s rule: findall.induct)
  case (1 r)
  then obtain rest where "run r [] False [] = Some (t, rest)"
    by (cases "run r [] False []") auto
  then have "[] = [] @ [] \<and> run r [] False [] = Some (t, rest)"
    by simp
  then show ?case by (intro exI) assumption
next
  case (2 r x xs)
  show ?case
  proof (cases "run r (x # xs) False []")
    case None
    with 2 obtain pre u rest where "xs = pre @ u" "run r u False [] = Some (t, rest)"
      by auto
    then have "x # xs = (x # pre) @ u \<and> run r u False [] = Some (t, rest)"
      by simp
    then show ?thesis by (intro exI) assumption
  next
    case (Some a)
    obtain c rest where a: "a = (c, rest)" by (cases a)
    show ?thesis
    proof (cases "t = c")
      case True
      with Some a have "x # xs = [] @ (x # xs) \<and> run r (x # xs) False [] = Some (t, rest)"
        by simp
      then show ?thesis by (intro exI) assumption
    next
      case False
      let ?next = "if length rest \<le> length xs then rest else xs"
      from False 2 Some a have "t \<in> set (findall r ?next)"
        by auto
      with "2.IH"(2) [OF Some [unfolded a] refl] obtain pre u rest'
        where n: "?next = pre @ u" and ru: "run r u False [] = Some (t, rest')"
        by auto
      from run_rest_suffix Some a obtain m where m: "x # xs = m @ rest"
        unfolding suffix_def by blast
      have "\<exists>m'. x # xs = m' @ ?next"
      proof (cases "length rest \<le> length xs")
        case True
        with m show ?thesis by (intro exI [of _ m]) simp
      next
        case False
        then show ?thesis by (intro exI [of _ "[x]"]) simp
      qed
      then obtain m' where "x # xs = m' @ ?next" ..
      with n have "x # xs = (m' @ pre) @ u"
        by simp
      with ru have "x # xs = (m' @ pre) @ u \<and> run r u False [] = Some (t, rest')"
        by simp
      then show ?thesis by (intro exI) assumption
    qed
  qed
qed

lemma style_infix_chars:
  assumes "style_infix l"
  shows "length l \<le> 2 \<and> CHR ''-'' \<notin> set l \<and> CHR ''.'' \<notin> set l"
proof -
  have low: "\<not> in_cls lower_cls (CHR ''-'')" "\<not> in_cls lower_cls (CHR ''.'')"
    and brsl: "\<not> in_cls brsl_cls (CHR ''-'')" "\<not> in_cls brsl_cls (CHR ''.'')"
    by (simp_all add: in_cls_def lower_cls_def brsl_cls_def)
  from assms consider "l = []" | c where "l = [c]" "in_cls lower_cls c"
    | b c where "l = [b, c]" "in_cls brsl_cls b" "in_cls lower_cls c"
    by (auto simp: style_infix_def split: list.splits)
  then show ?thesis
    using low brsl by cases auto
qed

lemma style_letters_eq:
  "CHR ''-'' \<notin> set l \<Longrightarrow> style_letters (''fa'' @ l @ ''-'' @ slug) = l"
  by (simp add: style_letters_def takeWhile_append)

text \<open>
  Claim C2, amended. Every token that the style pattern captures is \<^verbatim>\<open>fa\<close>, then at
  most two lowercase letters (none, or one lowercase letter, or one of \<^verbatim>\<open>b r s l\<close>
  followed by one lowercase letter), then a hyphen, then a slug that is not empty and
  consists of lowercase letters, digits and hyphens. These letters are the text between
  \<^verbatim>\<open>fa\<close> and the first hyphen of the token. In the CSS text the token stands after a
  dot and immediately before \<^verbatim>\<open>:before\<close> or \<^verbatim>\<open>::before\<close>.
\<close>

theorem C2_style_capture_shape:
  assumes "t \<in> set (findall STYLE_SELECTOR_RE css_text)"
  shows "\<exists>l slug pre m post.
           t = ''fa'' @ l @ ''-'' @ slug \<and> style_infix l \<and>
           style_letters t = l \<and> length l \<le> 2 \<and>
           slug \<noteq> [] \<and> list_all (in_cls slug_cls) slug \<and>
           css_text = pre @ ''.'' @ t @ m @ post \<and> (m = '':before'' \<or> m = ''::before'')"
proof -
  from findall_mem [OF assms] obtain pre u post
    where c: "css_text = pre @ u" and r: "run STYLE_SELECTOR_RE u False [] = Some (t, post)"
    by blast
  from style_run_sound [OF r] obtain l slug m
    where u: "u = ''.'' @ t @ m @ post" and t: "t = ''fa'' @ l @ ''-'' @ slug"
      and l: "style_infix l" and s: "slug \<noteq> []" "list_all (in_cls slug_cls) slug"
      and m: "m = '':before'' \<or> m = ''::before''"
    by blast
  from style_infix_chars [OF l] have n: "length l \<le> 2" and h: "CHR ''-'' \<notin> set l"
    by simp_all
  have sl: "style_letters t = l"
    unfolding t by (rule style_letters_eq [OF h])
  from c u have c': "css_text = pre @ ''.'' @ t @ m @ post"
    by simp
  from t l sl n s c' m
  have "t = ''fa'' @ l @ ''-'' @ slug \<and> style_infix l \<and>
           style_letters t = l \<and> length l \<le> 2 \<and>
           slug \<noteq> [] \<and> list_all (in_cls slug_cls) slug \<and>
           css_text = pre @ ''.'' @ t @ m @ post \<and> (m = '':before'' \<or> m = ''::before'')"
    by (intro conjI)
  then show ?thesis by (intro exI) assumption
qed

text \<open>
  Claim C2, amended, at the selector \<^verbatim>\<open>.fabx-y:before\<close>.
\<close>

theorem C2_style_capture_shape_witness:
  "''fabx-y'' \<in> set (findall STYLE_SELECTOR_RE ''.fabx-y:before{}'') \<and>
   (\<exists>l slug pre m post.
      ''fabx-y'' = ''fa'' @ l @ ''-'' @ slug \<and> style_infix l \<and>
      style_letters ''fabx-y'' = l \<and> length l \<le> 2 \<and>
      slug \<noteq> [] \<and> list_all (in_cls slug_cls) slug \<and>
      ''.fabx-y:before{}'' = pre @ ''.'' @ ''fabx-y'' @ m @ post \<and>
      (m = '':before'' \<or> m = ''::before''))"
proof (rule conjI)
  show h: "''fabx-y'' \<in> set (findall STYLE_SELECTOR_RE ''.fabx-y:before{}'')"
    by code_simp
  show "\<exists>l slug pre m post.
      ''fabx-y'' = ''fa'' @ l @ ''-'' @ slug \<and> style_infix l \<and>
      style_letters ''fabx-y'' = l \<and> length l \<le> 2 \<and>
      slug \<noteq> [] \<and> list_all (in_cls slug_cls) slug \<and>
      ''.fabx-y:before{}'' = pre @ ''.'' @ ''fabx-y'' @ m @ post \<and>
      (m = '':before'' \<or> m = ''::before'')"
    by (rule C2_style_capture_shape [OF h])
qed

text \<open>
  Claim C2 as stated allows one letter at most between \<^verbatim>\<open>fa\<close> and the first hyphen.
  The pattern has two optional classes there, \<^verbatim>\<open>[brsl]?[a-z]?\<close>: from
  \<^verbatim>\<open>.fabx-y:before{}\<close> it captures \<^verbatim>\<open>fabx-y\<close>, with the two letters \<^verbatim>\<open>bx\<close>.
\<close>

theorem C2_two_letters_counterexample:
  "findall STYLE_SELECTOR_RE ''.fabx-y:before{}'' = [''fabx-y''] \<and>
   style_letters ''fabx-y'' = ''bx'' \<and>
   length (style_letters ''fabx-y'') = 2"
  by code_simp

subsection \<open>Extraction from a text with known selectors\<close>

lemma run_no_fa:
  assumes "\<not> prefix ''.fa'' (x # pre)" and "s = [] \<or> hd s = CHR ''.''"
  shows "run (One [(CHR ''.'', CHR ''.'')] # GOpen # One [(CHR ''f'', CHR ''f'')]
              # One [(CHR ''a'', CHR ''a'')] # its) (x # pre @ s) False [] = None"
proof (cases "x = CHR ''.''")
  case False
  then show ?thesis by simp
next
  case True
  show ?thesis
  proof (cases pre)
    case Nil
    with assms(2) show ?thesis by (cases s) auto
  next
    case (Cons y pre')
    show ?thesis
    proof (cases pre')
      case Nil
      with Cons assms(2) show ?thesis by (cases s) auto
    next
      case (Cons z pre'')
      with \<open>pre = y # pre'\<close> True assms(1) show ?thesis by auto
    qed
  qed
qed

lemma findall_skip:
  assumes "\<not> sublist ''.fa'' pre" and "s = [] \<or> hd s = CHR ''.''"
  shows "findall (One [(CHR ''.'', CHR ''.'')] # GOpen # One [(CHR ''f'', CHR ''f'')]
                  # One [(CHR ''a'', CHR ''a'')] # its) (pre @ s)
         = findall (One [(CHR ''.'', CHR ''.'')] # GOpen # One [(CHR ''f'', CHR ''f'')]
                  # One [(CHR ''a'', CHR ''a'')] # its) s"
  using assms(1)
proof (induction pre)
  case Nil
  show ?case by simp
next
  case (Cons x pre)
  then have p: "\<not> prefix ''.fa'' (x # pre)" and q: "\<not> sublist ''.fa'' pre"
    by (simp_all add: sublist_Cons_right)
  from run_no_fa [OF p assms(2)] Cons.IH [OF q] show ?case
    by simp
qed

lemma findall_no_fa:
  assumes "\<not> sublist ''.fa'' s"
  shows "findall (One [(CHR ''.'', CHR ''.'')] # GOpen # One [(CHR ''f'', CHR ''f'')]
                  # One [(CHR ''a'', CHR ''a'')] # its) s = []"
  using findall_skip [OF assms, of "[]" its] by simp

lemmas cls_defs = in_cls_def grab_def slug_cls_def lower_cls_def brsl_cls_def
  colon_cls_def hyphen_cls_def tail_items_def lit_def

lemma run_ICON_yin_yang:
  "run ICON_SELECTOR_RE (''.fa-yin-yang::before'' @ s) False [] = Some (''fa-yin-yang'', s)"
  by (simp add: ICON_items cls_defs)

lemma run_STYLE_yin_yang:
  "run STYLE_SELECTOR_RE (''.fa-yin-yang::before'' @ s) False [] = Some (''fa-yin-yang'', s)"
  by (simp add: STYLE_items cls_defs)

lemma run_ICON_github:
  "run ICON_SELECTOR_RE (''.fab-github:before'' @ s) False [] = None"
  by (simp add: ICON_items cls_defs)

lemma run_STYLE_github:
  "run STYLE_SELECTOR_RE (''.fab-github:before'' @ s) False [] = Some (''fab-github'', s)"
  by (simp add: STYLE_items cls_defs)


lemma findall_ICON_skip:
  "\<not> sublist ''.fa'' pre \<Longrightarrow> s = [] \<or> hd s = CHR ''.'' \<Longrightarrow>
     findall ICON_SELECTOR_RE (pre @ s) = findall ICON_SELECTOR_RE s"
  unfolding ICON_items by (rule findall_skip)

lemma findall_STYLE_skip:
  "\<not> sublist ''.fa'' pre \<Longrightarrow> s = [] \<or> hd s = CHR ''.'' \<Longrightarrow>
     findall STYLE_SELECTOR_RE (pre @ s) = findall STYLE_SELECTOR_RE s"
  unfolding STYLE_items by (rule findall_skip)

lemma findall_ICON_no_fa: "\<not> sublist ''.fa'' s \<Longrightarrow> findall ICON_SELECTOR_RE s = []"
  unfolding ICON_items by (rule findall_no_fa)

lemma findall_STYLE_no_fa: "\<not> sublist ''.fa'' s \<Longrightarrow> findall STYLE_SELECTOR_RE s = []"
  unfolding STYLE_items by (rule findall_no_fa)

lemma findall_ICON_yin_yang:
  "findall ICON_SELECTOR_RE (''.fa-yin-yang::before'' @ s)
     = ''fa-yin-yang'' # findall ICON_SELECTOR_RE s"
  using run_ICON_yin_yang [of s] by simp

lemma findall_STYLE_yin_yang:
  "findall STYLE_SELECTOR_RE (''.fa-yin-yang::before'' @ s)
     = ''fa-yin-yang'' # findall STYLE_SELECTOR_RE s"
  using run_STYLE_yin_yang [of s] by simp

lemma findall_STYLE_github:
  "findall STYLE_SELECTOR_RE (''.fab-github:before'' @ s)
     = ''fab-github'' # findall STYLE_SELECTOR_RE s"
  using run_STYLE_github [of s] by simp

lemma findall_ICON_github:
  "findall ICON_SELECTOR_RE (''.fab-github:before'' @ s) = findall ICON_SELECTOR_RE s"
  by (simp add: ICON_items cls_defs)

lemma findall_yin_yang_github:
  assumes "\<not> sublist ''.fa'' pre" and "\<not> sublist ''.fa'' mid" and "\<not> sublist ''.fa'' post"
  shows "findall ICON_SELECTOR_RE
           (pre @ ''.fa-yin-yang::before'' @ mid @ ''.fab-github:before'' @ post)
         = [''fa-yin-yang'']"
    and "findall STYLE_SELECTOR_RE
           (pre @ ''.fa-yin-yang::before'' @ mid @ ''.fab-github:before'' @ post)
         = [''fa-yin-yang'', ''fab-github'']"
proof -
  let ?b = "''.fab-github:before'' @ post"
  let ?a = "''.fa-yin-yang::before'' @ mid @ ?b"
  have "findall ICON_SELECTOR_RE (pre @ ?a) = findall ICON_SELECTOR_RE ?a"
    by (rule findall_ICON_skip [OF assms(1)]) simp
  also have "\<dots> = ''fa-yin-yang'' # findall ICON_SELECTOR_RE (mid @ ?b)"
    by (rule findall_ICON_yin_yang)
  also have "findall ICON_SELECTOR_RE (mid @ ?b) = findall ICON_SELECTOR_RE ?b"
    by (rule findall_ICON_skip [OF assms(2)]) simp
  also have "\<dots> = findall ICON_SELECTOR_RE post"
    by (rule findall_ICON_github)
  also have "\<dots> = []"
    by (rule findall_ICON_no_fa [OF assms(3)])
  finally show "findall ICON_SELECTOR_RE (pre @ ?a) = [''fa-yin-yang'']" .
  have "findall STYLE_SELECTOR_RE (pre @ ?a) = findall STYLE_SELECTOR_RE ?a"
    by (rule findall_STYLE_skip [OF assms(1)]) simp
  also have "\<dots> = ''fa-yin-yang'' # findall STYLE_SELECTOR_RE (mid @ ?b)"
    by (rule findall_STYLE_yin_yang)
  also have "findall STYLE_SELECTOR_RE (mid @ ?b) = findall STYLE_SELECTOR_RE ?b"
    by (rule findall_STYLE_skip [OF assms(2)]) simp
  also have "\<dots> = ''fab-github'' # findall STYLE_SELECTOR_RE post"
    by (rule findall_STYLE_github)
  also have "findall STYLE_SELECTOR_RE post = []"
    by (rule findall_STYLE_no_fa [OF assms(3)])
  finally show "findall STYLE_SELECTOR_RE (pre @ ?a) = [''fa-yin-yang'', ''fab-github'']" .
qed

lemma findall_github_yin_yang:
  assumes "\<not> sublist ''.fa'' pre" and "\<not> sublist ''.fa'' mid" and "\<not> sublist ''.fa'' post"
  shows "findall ICON_SELECTOR_RE
           (pre @ ''.fab-github:before'' @ mid @ ''.fa-yin-yang::before'' @ post)
         = [''fa-yin-yang'']"
    and "findall STYLE_SELECTOR_RE
           (pre @ ''.fab-github:before'' @ mid @ ''.fa-yin-yang::before'' @ post)
         = [''fab-github'', ''fa-yin-yang'']"
proof -
  let ?b = "''.fa-yin-yang::before'' @ post"
  let ?a = "''.fab-github:before'' @ mid @ ?b"
  have "findall ICON_SELECTOR_RE (pre @ ?a) = findall ICON_SELECTOR_RE ?a"
    by (rule findall_ICON_skip [OF assms(1)]) simp
  also have "\<dots> = findall ICON_SELECTOR_RE (mid @ ?b)"
    by (rule findall_ICON_github)
  also have "\<dots> = findall ICON_SELECTOR_RE ?b"
    by (rule findall_ICON_skip [OF assms(2)]) simp
  also have "\<dots> = ''fa-yin-yang'' # findall ICON_SELECTOR_RE post"
    by (rule findall_ICON_yin_yang)
  also have "findall ICON_SELECTOR_RE post = []"
    by (rule findall_ICON_no_fa [OF assms(3)])
  finally show "findall ICON_SELECTOR_RE (pre @ ?a) = [''fa-yin-yang'']" .
  have "findall STYLE_SELECTOR_RE (pre @ ?a) = findall STYLE_SELECTOR_RE ?a"
    by (rule findall_STYLE_skip [OF assms(1)]) simp
  also have "\<dots> = ''fab-github'' # findall STYLE_SELECTOR_RE (mid @ ?b)"
    by (rule findall_STYLE_github)
  also have "findall STYLE_SELECTOR_RE (mid @ ?b) = findall STYLE_SELECTOR_RE ?b"
    by (rule findall_STYLE_skip [OF assms(2)]) simp
  also have "\<dots> = ''fa-yin-yang'' # findall STYLE_SELECTOR_RE post"
    by (rule findall_STYLE_yin_yang)
  also have "findall STYLE_SELECTOR_RE post = []"
    by (rule findall_STYLE_no_fa [OF assms(3)])
  finally show "findall STYLE_SELECTOR_RE (pre @ ?a) = [''fab-github'', ''fa-yin-yang'']" .
qed

lemma extract_yin_yang_github:
  assumes "\<not> sublist ''.fa'' pre" and "\<not> sublist ''.fa'' mid" and "\<not> sublist ''.fa'' post"
  shows "extract_icon_classes
           (pre @ ''.fa-yin-yang::before'' @ mid @ ''.fab-github:before'' @ post)
         = {''fa-yin-yang'', ''fab-github''}"
  unfolding extract_icon_classes_def Let_def findall_yin_yang_github [OF assms] by auto

lemma extract_github_yin_yang:
  assumes "\<not> sublist ''.fa'' pre" and "\<not> sublist ''.fa'' mid" and "\<not> sublist ''.fa'' post"
  shows "extract_icon_classes
           (pre @ ''.fab-github:before'' @ mid @ ''.fa-yin-yang::before'' @ post)
         = {''fa-yin-yang'', ''fab-github''}"
  unfolding extract_icon_classes_def Let_def findall_github_yin_yang [OF assms] by auto

lemma set_iter_set: "finite A \<Longrightarrow> set (iter_set A) = A"
  by (simp add: iter_set_def)

lemma normalize_yin_yang_github:
  "normalize_icons (iter_set {''fa-yin-yang'', ''fab-github''})
     = Inr ([''fa-github'', ''fa-yin-yang''], [''fa-github''], [''fa-yin-yang''])"
proof -
  have "normalize_icons (iter_set {''fa-yin-yang'', ''fab-github''})
          = normalize_icons [''fa-yin-yang'', ''fab-github'']"
    by (rule normalize_icons_cong) (simp add: set_iter_set)
  also have "\<dots> = Inr ([''fa-github'', ''fa-yin-yang''], [''fa-github''], [''fa-yin-yang''])"
    by code_simp
  finally show ?thesis .
qed

text \<open>
  Claim C6. Take a CSS text that holds the selectors \<^verbatim>\<open>.fa-yin-yang::before\<close> and
  \<^verbatim>\<open>.fab-github:before\<close>, in either order, and no other selector: the text before,
  between and after them nowhere contains \<^verbatim>\<open>.fa\<close>, with which every match of both
  patterns starts. Extraction followed by normalization gives the base list
  \<^verbatim>\<open>fa-github, fa-yin-yang\<close>, the brand list \<^verbatim>\<open>fa-github\<close> and the non-brand list
  \<^verbatim>\<open>fa-yin-yang\<close>.
\<close>

theorem C6_yin_yang_and_github:
  assumes "\<not> sublist ''.fa'' pre" and "\<not> sublist ''.fa'' mid" and "\<not> sublist ''.fa'' post"
  shows "extract_and_normalize
           (pre @ ''.fa-yin-yang::before'' @ mid @ ''.fab-github:before'' @ post)
         = Inr ([''fa-github'', ''fa-yin-yang''], [''fa-github''], [''fa-yin-yang'']) \<and>
         extract_and_normalize
           (pre @ ''.fab-github:before'' @ mid @ ''.fa-yin-yang::before'' @ post)
         = Inr ([''fa-github'', ''fa-yin-yang''], [''fa-github''], [''fa-yin-yang''])"
  unfolding extract_and_normalize_def Let_def
    extract_yin_yang_github [OF assms] extract_github_yin_yang [OF assms]
    normalize_yin_yang_github
  by (rule conjI) (rule refl)+

text \<open>
  Claim C6 at the text \<^verbatim>\<open>.fa-yin-yang::before{...}.fab-github:before{...}\<close>.
\<close>

theorem C6_yin_yang_and_github_witness:
  "\<not> sublist ''.fa'' [] \<and> \<not> sublist ''.fa'' ''{...}'' \<and>
   extract_and_normalize
     ([] @ ''.fa-yin-yang::before'' @ ''{...}'' @ ''.fab-github:before'' @ ''{...}'')
     = Inr ([''fa-github'', ''fa-yin-yang''], [''fa-github''], [''fa-yin-yang''])"
proof -
  have h: "\<not> sublist ''.fa'' []" "\<not> sublist ''.fa'' ''{...}''"
    by (simp_all add: sublist_Cons_right)
  show ?thesis
    using h C6_yin_yang_and_github [OF h(1) h(2) h(2)] by (intro conjI) simp_all
qed

subsection \<open>Tokens with a solid, regular or light prefix\<close>

lemma in_slug_not_dot: "in_cls slug_cls c \<Longrightarrow> c \<noteq> CHR ''.''"
  by (auto simp: in_cls_def slug_cls_def)

lemma style_match_anchored:
  assumes "run STYLE_SELECTOR_RE u False [] = Some (t, rest)"
  shows "\<exists>m. u = CHR ''.'' # m @ rest \<and> CHR ''.'' \<notin> set m"
proof -
  from style_run_sound [OF assms] obtain l slug m
    where u: "u = ''.'' @ t @ m @ rest" and t: "t = ''fa'' @ l @ ''-'' @ slug"
      and l: "style_infix l" and s: "list_all (in_cls slug_cls) slug"
      and m: "m = '':before'' \<or> m = ''::before''"
    by blast
  from style_infix_chars [OF l] have "CHR ''.'' \<notin> set l"
    by simp
  moreover from s have "CHR ''.'' \<notin> set slug"
    by (auto simp: list_all_iff dest: in_slug_not_dot)
  moreover from m have "CHR ''.'' \<notin> set m"
    by auto
  ultimately have "CHR ''.'' \<notin> set (t @ m)"
    by (simp add: t)
  with u have "u = CHR ''.'' # (t @ m) @ rest \<and> CHR ''.'' \<notin> set (t @ m)"
    by simp
  then show ?thesis by (intro exI) assumption
qed

lemma findall_hits:
  assumes anchored: "\<And>u c rest. run r u False [] = Some (c, rest) \<Longrightarrow>
             \<exists>m. u = CHR ''.'' # m @ rest \<and> CHR ''.'' \<notin> set m"
    and hit: "run r (CHR ''.'' # v) False [] = Some (t, rest)"
  shows "t \<in> set (findall r (pre @ CHR ''.'' # v))"
proof (induction "length pre" arbitrary: pre rule: less_induct)
  case less
  show ?case
  proof (cases pre)
    case Nil
    with hit show ?thesis by simp
  next
    case (Cons x pre')
    show ?thesis
    proof (cases "run r (x # pre' @ CHR ''.'' # v) False []")
      case None
      have "t \<in> set (findall r (pre' @ CHR ''.'' # v))"
        by (rule less) (simp add: Cons)
      with None Cons show ?thesis by simp
    next
      case (Some a)
      obtain c rest' where a: "a = (c, rest')" by (cases a)
      from anchored Some a obtain m
        where e: "x # pre' @ CHR ''.'' # v = CHR ''.'' # m @ rest'" and m: "CHR ''.'' \<notin> set m"
        by blast
      from e have "pre' @ CHR ''.'' # v = m @ rest'"
        by simp
      then obtain us where "(pre' = m @ us \<and> us @ CHR ''.'' # v = rest')
          \<or> (pre' @ us = m \<and> CHR ''.'' # v = us @ rest')"
        unfolding append_eq_append_conv2 by blast
      then have "\<exists>us'. pre' = m @ us' \<and> rest' = us' @ CHR ''.'' # v"
      proof
        assume "pre' = m @ us \<and> us @ CHR ''.'' # v = rest'"
        then show ?thesis by auto
      next
        assume h: "pre' @ us = m \<and> CHR ''.'' # v = us @ rest'"
        with m have "us = []"
          by (cases us) auto
        with h show ?thesis by auto
      qed
      then obtain us' where p: "pre' = m @ us'" and r': "rest' = us' @ CHR ''.'' # v"
        by blast
      have "t \<in> set (findall r (us' @ CHR ''.'' # v))"
        by (rule less) (simp add: Cons p)
      moreover have "length rest' \<le> length (pre' @ CHR ''.'' # v)"
        by (simp add: p r')
      ultimately show ?thesis
        using Some a Cons r' by simp
    qed
  qed
qed

lemma run_STYLE_user:
  "run STYLE_SELECTOR_RE (CHR ''.'' # ''fas-user:before'' @ s) False [] = Some (''fas-user'', s)"
  by (simp add: STYLE_items cls_defs)

lemma extract_fas_user:
  "''fas-user'' \<in> extract_icon_classes (pre @ ''.fas-user:before'' @ post)"
proof -
  have "''fas-user'' \<in> set (findall STYLE_SELECTOR_RE
          (pre @ CHR ''.'' # ''fas-user:before'' @ post))"
    by (rule findall_hits [OF style_match_anchored run_STYLE_user])
  then show ?thesis
    by (simp add: extract_icon_classes_def)
qed


lemma fab_not_fa: "startswith c ''fab-'' \<Longrightarrow> \<not> startswith c ''fa-''"
  by (auto simp: startswith_def prefix_def)

lemma solid_not_fa:
  "startswith c ''fas-'' \<or> startswith c ''far-'' \<or> startswith c ''fal-''
     \<Longrightarrow> \<not> startswith c ''fa-'' \<and> \<not> startswith c ''fab-''"
  by (auto simp: startswith_def prefix_def)

lemma brand_mem:
  "x \<in> (\<Union>c\<in>A. brand_of c)
     \<longleftrightarrow> (\<exists>c\<in>A. startswith c ''fab-'' \<and> replace ''fab-'' ''fa-'' c = x)"
  by (auto simp: brand_of_def dest: fab_not_fa split: if_splits)

lemma solid_base_mem:
  assumes "startswith c ''fas-'' \<or> startswith c ''far-'' \<or> startswith c ''fal-''"
    and "c \<in> A"
  shows "''fa-'' @ drop 4 c \<in> (\<Union>c\<in>A. base_of c)"
proof -
  from solid_not_fa [OF assms(1)] assms(1) have "base_of c = {''fa-'' @ drop 4 c}"
    by (simp add: base_of_def)
  with assms(2) show ?thesis by blast
qed

lemma normalize_icons_members:
  assumes "startswith cls ''fas-'' \<or> startswith cls ''far-'' \<or> startswith cls ''fal-''"
    and "cls \<in> set raw"
  shows "\<exists>base brand non_brand.
           normalize_icons raw = Inr (base, brand, non_brand) \<and>
           ''fa-'' @ drop 4 cls \<in> set base \<and>
           (''fa-'' @ drop 4 cls \<in> set brand \<longleftrightarrow>
              (\<exists>c\<in>set raw. startswith c ''fab-'' \<and>
                 replace ''fab-'' ''fa-'' c = ''fa-'' @ drop 4 cls))"
  using solid_base_mem [OF assms]
  by (simp add: normalize_icons_eq finite_base_of finite_brand_of brand_mem
      del: UN_iff Union_iff)

lemma finite_extract: "finite (extract_icon_classes css_text)"
  by (simp add: extract_icon_classes_def Let_def)

text \<open>
  Claim C7, amended. For a raw token that starts with \<^verbatim>\<open>fas-\<close>, \<^verbatim>\<open>far-\<close> or
  \<^verbatim>\<open>fal-\<close>, the text after the first hyphen is the token without its first four
  characters, and the loop body adds \<^verbatim>\<open>fa-\<close> followed by that text to the base set
  and leaves the brand set as it is. So the base list of the result contains that
  string, and the brand list contains it exactly when some token of the raw set that
  starts with \<^verbatim>\<open>fab-\<close> is rewritten to the same string. In particular, for every CSS
  text containing \<^verbatim>\<open>.fas-user:before\<close> the base list contains \<^verbatim>\<open>fa-user\<close>, and the
  brand list contains it exactly when a captured token starting with \<^verbatim>\<open>fab-\<close> is
  rewritten to \<^verbatim>\<open>fa-user\<close>.
\<close>

theorem C7_solid_prefix_to_base:
  assumes "startswith cls ''fas-'' \<or> startswith cls ''far-'' \<or> startswith cls ''fal-''"
    and "cls \<in> set raw"
  shows "index (split_first (CHR ''-'') cls) 1 = Inr (drop 4 cls) \<and>
         normalize_step cls (base_icons, brand_icons)
           = Inr (insert (''fa-'' @ drop 4 cls) base_icons, brand_icons) \<and>
         (\<exists>base brand non_brand.
            normalize_icons raw = Inr (base, brand, non_brand) \<and>
            ''fa-'' @ drop 4 cls \<in> set base \<and>
            (''fa-'' @ drop 4 cls \<in> set brand \<longleftrightarrow>
               (\<exists>c\<in>set raw. startswith c ''fab-'' \<and>
                  replace ''fab-'' ''fa-'' c = ''fa-'' @ drop 4 cls))) \<and>
         (\<exists>base brand non_brand.
            extract_and_normalize (pre @ ''.fas-user:before'' @ post)
              = Inr (base, brand, non_brand) \<and>
            ''fa-user'' \<in> set base \<and>
            (''fa-user'' \<in> set brand \<longleftrightarrow>
               (\<exists>c\<in>extract_icon_classes (pre @ ''.fas-user:before'' @ post).
                  startswith c ''fab-'' \<and> replace ''fab-'' ''fa-'' c = ''fa-user'')))"
proof (intro conjI)
  show "index (split_first (CHR ''-'') cls) 1 = Inr (drop 4 cls)"
    using solid_name_index [OF assms(1)] by simp
  from solid_not_fa [OF assms(1)] assms(1)
  show "normalize_step cls (base_icons, brand_icons)
          = Inr (insert (''fa-'' @ drop 4 cls) base_icons, brand_icons)"
    by (simp add: normalize_step_eq base_of_def brand_of_def)
  show "\<exists>base brand non_brand.
            normalize_icons raw = Inr (base, brand, non_brand) \<and>
            ''fa-'' @ drop 4 cls \<in> set base \<and>
            (''fa-'' @ drop 4 cls \<in> set brand \<longleftrightarrow>
               (\<exists>c\<in>set raw. startswith c ''fab-'' \<and>
                  replace ''fab-'' ''fa-'' c = ''fa-'' @ drop 4 cls))"
    by (rule normalize_icons_members [OF assms])
  let ?A = "extract_icon_classes (pre @ ''.fas-user:before'' @ post)"
  have s: "startswith ''fas-user'' ''fas-'' \<or> startswith ''fas-user'' ''far-''
            \<or> startswith ''fas-user'' ''fal-''"
    by (simp add: startswith_def)
  have m: "''fas-user'' \<in> set (iter_set ?A)"
    unfolding set_iter_set [OF finite_extract] by (rule extract_fas_user)
  from normalize_icons_members [OF s m]
  show "\<exists>base brand non_brand.
            extract_and_normalize (pre @ ''.fas-user:before'' @ post)
              = Inr (base, brand, non_brand) \<and>
            ''fa-user'' \<in> set base \<and>
            (''fa-user'' \<in> set brand \<longleftrightarrow>
               (\<exists>c\<in>?A. startswith c ''fab-'' \<and> replace ''fab-'' ''fa-'' c = ''fa-user''))"
    by (simp add: extract_and_normalize_def Let_def set_iter_set finite_extract)
qed

text \<open>
  Claim C7, amended, at the token \<^verbatim>\<open>far-bell\<close>.
\<close>

theorem C7_solid_prefix_to_base_witness:
  "(startswith ''far-bell'' ''fas-'' \<or> startswith ''far-bell'' ''far-''
      \<or> startswith ''far-bell'' ''fal-'') \<and>
   ''far-bell'' \<in> set [''fa-code'', ''far-bell''] \<and>
   index (split_first (CHR ''-'') ''far-bell'') 1 = Inr (drop 4 ''far-bell'') \<and>
   normalize_step ''far-bell'' ({''fa-code''}, {})
     = Inr (insert (''fa-'' @ drop 4 ''far-bell'') {''fa-code''}, {})"
proof -
  have h: "startswith ''far-bell'' ''fas-'' \<or> startswith ''far-bell'' ''far-''
      \<or> startswith ''far-bell'' ''fal-''" "''far-bell'' \<in> set [''fa-code'', ''far-bell'']"
    by (simp_all add: startswith_def)
  from C7_solid_prefix_to_base [OF h, of "{''fa-code''}" "{}" "[]" "[]"] h
  show ?thesis by (intro conjI) simp_all
qed

text \<open>
  Claim C7 as stated says that the brand set excludes \<^verbatim>\<open>fa-user\<close> whenever the CSS
  contains \<^verbatim>\<open>.fas-user:before\<close>. The brand set is a set of names: when the CSS also
  contains \<^verbatim>\<open>.fab-user:before\<close>, the name \<^verbatim>\<open>fa-user\<close> is in the brand list and not
  in the non-brand list.
\<close>

theorem C7_brand_includes_counterexample:
  "startswith ''fas-user'' ''fas-'' \<and> \<not> startswith ''fas-user'' ''fa-'' \<and>
   normalize_icons [''fas-user'', ''fab-user''] = Inr ([''fa-user''], [''fa-user''], []) \<and>
   extract_icon_classes ''.fas-user:before{}.fab-user:before{}'' = {''fas-user'', ''fab-user''} \<and>
   extract_and_normalize ''.fas-user:before{}.fab-user:before{}''
     = Inr ([''fa-user''], [''fa-user''], [])"
  by code_simp

subsection \<open>The JSON writer\<close>

lemma length_partition:
  assumes "finite A" and "finite R"
  shows "length (sorted_list_of_set R) + length (sorted_list_of_set ((A \<union> R) - R))
         = length (sorted_list_of_set (A \<union> R))"
proof -
  have "card R + card ((A \<union> R) - R) = card (R \<union> ((A \<union> R) - R))"
    using assms by (subst card_Un_disjoint) auto
  also have "R \<union> ((A \<union> R) - R) = A \<union> R"
    by auto
  finally show ?thesis
    by simp
qed

text \<open>
  Claim C4. For every triple the normalizer returns, the object that the JSON writer
  serialises and writes has \<open>count_total\<close>, \<open>count_brands\<close> and \<open>count_non_brands\<close>
  equal to the lengths of its arrays \<open>icons\<close>, \<open>brands\<close> and \<open>non_brands\<close>, and
  \<open>count_brands + count_non_brands = count_total\<close>.
\<close>

theorem C4_json_counts:
  "\<exists>base brand non_brand.
     normalize_icons raw = Inr (base, brand, non_brand) \<and>
     (\<exists>ct cb cn icons brands non_brands.
        json_data base brand non_brand =
          JObj [(''count_total'', JInt ct), (''count_brands'', JInt cb),
                (''count_non_brands'', JInt cn), (''icons'', JArr icons),
                (''brands'', JArr brands), (''non_brands'', JArr non_brands)] \<and>
        write_json dumps p base brand non_brand files p
          = Some (dumps (json_data base brand non_brand)) \<and>
        ct = int (length icons) \<and> cb = int (length brands) \<and>
        cn = int (length non_brands) \<and> cb + cn = ct)"
proof -
  let ?B = "\<Union>c\<in>set raw. base_of c" and ?R = "\<Union>c\<in>set raw. brand_of c"
  have "length (sorted_list_of_set ?R) + length (sorted_list_of_set ((?B \<union> ?R) - ?R))
        = length (sorted_list_of_set (?B \<union> ?R))"
    by (rule length_partition) (rule finite_base_of finite_brand_of)+
  then show ?thesis
    by (simp add: normalize_icons_eq json_data_def write_json_def write_text_def
        del: length_sorted_list_of_set)
qed


subsection \<open>The run\<close>












end
